theory Spec2Isabelle
  imports Complex_Main "HOL-Library.Log_Nat" "HOL-Library.Word"
begin

section \<open>JavaScript numbers\<close>

text \<open>
  A JavaScript number is an IEEE-754 binary64 value. The finite ones are rationals; the
  two infinities and NaN are constructors of their own. Every arithmetic operation
  computes the exact result and rounds it to the nearest representable value, ties to
  the even significand. The sign of zero is not modelled: every operand of the code
  below is non-negative, so no negative zero arises. The exponent range is not modelled
  either: image dimensions are 32-bit unsigned integers and colour samples are bytes, so
  every intermediate value that is not zero lies between \<open>2\<^sup>-\<^sup>3\<^sup>2\<close> and \<open>2\<^sup>4\<^sup>1\<close>, far
  inside the normal range of binary64 and of binary32.
\<close>

datatype jsnum = Fin rat | PInf | NInf | NaN

text \<open>\<open>ilog2 x\<close> is the exponent \<open>e\<close> with \<open>2\<^sup>e \<le> x < 2\<^sup>e\<^sup>+\<^sup>1\<close>, for positive \<open>x\<close>.\<close>

definition ilog2 :: "rat \<Rightarrow> int" where
  "ilog2 x = (if 1 \<le> x then int (floorlog 2 (nat \<lfloor>x\<rfloor>)) - 1
              else - int (floorlog 2 (nat (\<lceil>1 / x\<rceil> - 1))))"

definition round_ties_even :: "rat \<Rightarrow> int" where
  "round_ties_even y =
     (let f = \<lfloor>y\<rfloor>; d = y - of_int f
      in if d < 1 / 2 then f else if 1 / 2 < d then f + 1 else if even f then f else f + 1)"

text \<open>Rounding to a significand of \<open>p\<close> bits: \<open>p = 53\<close> is binary64, \<open>p = 24\<close> is binary32.\<close>

definition fl :: "nat \<Rightarrow> rat \<Rightarrow> rat" where
  "fl p x =
     (if x = 0 then 0
      else let e = ilog2 \<bar>x\<bar>; s = power_int 2 (int p - 1 - e)
           in sgn x * of_int (round_ties_even (\<bar>x\<bar> * s)) / s)"

definition f64 :: "rat \<Rightarrow> rat" where
  "f64 = fl 53"

definition f32 :: "rat \<Rightarrow> rat" where
  "f32 = fl 24"

fun js_div :: "jsnum \<Rightarrow> jsnum \<Rightarrow> jsnum" where
  "js_div (Fin a) (Fin b) =
     (if b = 0 then (if a = 0 then NaN else if 0 < a then PInf else NInf)
      else Fin (f64 (a / b)))"
| "js_div (Fin a) PInf = Fin 0"
| "js_div (Fin a) NInf = Fin 0"
| "js_div PInf (Fin b) = (if 0 \<le> b then PInf else NInf)"
| "js_div NInf (Fin b) = (if 0 \<le> b then NInf else PInf)"
| "js_div _ _ = NaN"

fun js_mul :: "jsnum \<Rightarrow> jsnum \<Rightarrow> jsnum" where
  "js_mul (Fin a) (Fin b) = Fin (f64 (a * b))"
| "js_mul (Fin a) PInf = (if a = 0 then NaN else if 0 < a then PInf else NInf)"
| "js_mul (Fin a) NInf = (if a = 0 then NaN else if 0 < a then NInf else PInf)"
| "js_mul PInf (Fin b) = (if b = 0 then NaN else if 0 < b then PInf else NInf)"
| "js_mul NInf (Fin b) = (if b = 0 then NaN else if 0 < b then NInf else PInf)"
| "js_mul PInf PInf = PInf"
| "js_mul PInf NInf = NInf"
| "js_mul NInf PInf = NInf"
| "js_mul NInf NInf = PInf"
| "js_mul _ _ = NaN"

fun js_sub :: "jsnum \<Rightarrow> jsnum \<Rightarrow> jsnum" where
  "js_sub (Fin a) (Fin b) = Fin (f64 (a - b))"
| "js_sub (Fin a) PInf = NInf"
| "js_sub (Fin a) NInf = PInf"
| "js_sub PInf (Fin b) = PInf"
| "js_sub NInf (Fin b) = NInf"
| "js_sub PInf NInf = PInf"
| "js_sub NInf PInf = NInf"
| "js_sub _ _ = NaN"

text \<open>\<open>Math.round\<close> rounds to the nearest integer, a tie towards \<open>+\<infinity>\<close>.\<close>

fun Math_round :: "jsnum \<Rightarrow> jsnum" where
  "Math_round (Fin x) = Fin (of_int \<lfloor>x + 1 / 2\<rfloor>)"
| "Math_round v = v"

fun Math_floor :: "jsnum \<Rightarrow> jsnum" where
  "Math_floor (Fin x) = Fin (of_int \<lfloor>x\<rfloor>)"
| "Math_floor v = v"

text \<open>Storing a number into a \<open>Float32Array\<close> rounds it to binary32.\<close>

fun to_float32 :: "jsnum \<Rightarrow> jsnum" where
  "to_float32 (Fin x) = Fin (f32 x)"
| "to_float32 v = v"

datatype js_error = Error string | TypeError string | DOMException string

fun message :: "js_error \<Rightarrow> string" where
  "message (Error m) = m"
| "message (TypeError m) = m"
| "message (DOMException m) = m"


section \<open>image_processor.js\<close>

definition targetSize :: nat where
  "targetSize = 320"

text \<open>\<open>ImageBitmap.width\<close> and \<open>height\<close> are unsigned 32-bit integers.\<close>

definition num_of_u32 :: "32 word \<Rightarrow> jsnum" where
  "num_of_u32 w = Fin (of_nat (unat w))"

text \<open>
  Step 1 of \<open>processImage\<close>: the pair \<open>(newWidth, newHeight)\<close>, from \<open>aspect\<close> and the
  comparison of the two sides.
\<close>

definition resize :: "32 word \<Rightarrow> 32 word \<Rightarrow> jsnum \<times> jsnum" where
  "resize imgWidth imgHeight =
     (let aspect = js_div (num_of_u32 imgWidth) (num_of_u32 imgHeight)
      in if imgHeight \<le> imgWidth
         then (Fin (of_nat targetSize), Math_round (js_div (Fin (of_nat targetSize)) aspect))
         else (Math_round (js_mul (Fin (of_nat targetSize)) aspect), Fin (of_nat targetSize)))"

text \<open>
  Step 2: \<open>padLeft\<close> from \<open>newWidth\<close> and \<open>padTop\<close> from \<open>newHeight\<close>, both
  \<open>Math.floor((targetSize - newDim) / 2)\<close>. The source also computes \<open>padRight\<close> and
  \<open>padBottom\<close> and never reads them.
\<close>

definition pad_before :: "jsnum \<Rightarrow> jsnum" where
  "pad_before newDim = Math_floor (js_div (js_sub (Fin (of_nat targetSize)) newDim) (Fin 2))"

text \<open>
  Reading a \<open>Uint8ClampedArray\<close>: a byte inside the array, \<open>undefined\<close> outside it, and
  \<open>undefined / 255\<close> is NaN.
\<close>

definition sample :: "8 word list \<Rightarrow> nat \<Rightarrow> jsnum" where
  "sample d j = (if j < length d then Fin (of_nat (unat (d ! j))) else NaN)"

definition channel_value :: "8 word list \<Rightarrow> nat \<Rightarrow> jsnum" where
  "channel_value d j = to_float32 (js_div (sample d j) (Fin 255))"

text \<open>
  Step 4, the loop \<open>for (let i = 0; i < imageData.data.length; i += 4)\<close>. The index
  \<open>i\<close> stays a multiple of 4, so \<open>pixelIndex = i / 4\<close> is the integer \<open>i div 4\<close>. A store
  beyond the end of a typed array is ignored, as \<open>list_update\<close> does.
\<close>

function fill :: "8 word list \<Rightarrow> nat \<Rightarrow> jsnum list \<Rightarrow> jsnum list" where
  "fill d i float32Data =
     (if i < length d
      then let pixelIndex = i div 4
           in fill d (i + 4)
                (float32Data
                   [pixelIndex := channel_value d i,
                    pixelIndex + targetSize * targetSize := channel_value d (i + 1),
                    pixelIndex + 2 * targetSize * targetSize := channel_value d (i + 2)])
      else float32Data)"
  by pat_completeness auto
termination
  by (relation "measure (\<lambda>(d, i, out). length d - i)") auto

declare fill.simps [simp del]

text \<open>
  Step 4 as a whole: \<open>float32Data\<close> is a new \<open>Float32Array(3 * targetSize * targetSize)\<close>,
  all zero, and the loop runs over it from \<open>i = 0\<close>.
\<close>

definition to_nchw :: "8 word list \<Rightarrow> jsnum list" where
  "to_nchw imageData = fill imageData 0 (replicate (3 * targetSize * targetSize) (Fin 0))"

record processed =
  float32Data :: "jsnum list"
  dims :: "nat list"
  resizeFactor :: jsnum
  padLeft :: jsnum
  padTop :: jsnum

text \<open>
  \<open>processImage\<close>. Its arguments are the width and height of the image bitmap and the
  outcome of the browser's image and canvas calls (\<open>createImageBitmap\<close>, \<open>drawImage\<close>,
  \<open>getImageData\<close>): either the exception one of them throws, which \<open>processImage\<close> does
  not catch, or the bytes that \<open>getImageData(0, 0, targetSize, targetSize)\<close> reads back.
\<close>

definition processImage ::
  "32 word \<Rightarrow> 32 word \<Rightarrow> js_error + 8 word list \<Rightarrow> js_error + processed" where
  "processImage imgWidth imgHeight canvas =
     (let (newWidth, newHeight) = resize imgWidth imgHeight;
          padLeft = pad_before newWidth;
          padTop = pad_before newHeight
      in (case canvas of
            Inl e \<Rightarrow> Inl e
          | Inr imageData \<Rightarrow>
              Inr \<lparr>float32Data = to_nchw imageData,
                   dims = [1, 3, targetSize, targetSize],
                   resizeFactor = Fin 1,
                   padLeft = padLeft,
                   padTop = padTop\<rparr>))"

subsection \<open>The canvas calls in the browser\<close>










section \<open>background.js\<close>

text \<open>
  The inference engine is a library outside the repository. Its objects are records,
  each call the worker makes to it is logged, and what its tensor constructor,
  \<open>session.run\<close> and \<open>tensor.dispose\<close> return or throw is a parameter of the model (for
  \<open>dispose\<close>, \<open>None\<close> is a return; an engine whose tensors have no such method makes the call
  throw a \<open>TypeError\<close>).
\<close>

record session =
  sessionId :: nat
  outputNames :: "string list"

record tensor =
  tdata :: "jsnum list"
  tdims :: "int list"

datatype engine_call =
    CreateSession
  | NewTensor "jsnum list" "int list"
  | Run session tensor
  | Dispose tensor

record engine =
  newTensor :: "jsnum list \<Rightarrow> int list \<Rightarrow> js_error + tensor"
  run :: "session \<Rightarrow> tensor \<Rightarrow> js_error + (string \<rightharpoonup> tensor)"
  dispose :: "tensor \<Rightarrow> js_error option"

text \<open>
  The worker: the global \<open>ortSession\<close>, the calls of \<open>initializeModel\<close> that wait for
  \<open>InferenceSession.create\<close>, how each finished call ended (\<open>None\<close>: it returned; an error:
  it rethrew it), and the log of engine calls.
\<close>

record worker =
  ortSession :: "session option"
  inFlight :: "nat list"
  nextCall :: nat
  settled :: "(nat \<times> js_error option) list"
  engineLog :: "engine_call list"

definition initial :: worker where
  "initial = \<lparr>ortSession = None, inFlight = [], nextCall = 0, settled = [], engineLog = []\<rparr>"

text \<open>
  \<open>initializeModel\<close> is asynchronous. \<open>InitCall\<close> is a call of it, by the
  \<open>onInstalled\<close> or the \<open>onStartup\<close> listener: it runs up to
  \<open>await ort.InferenceSession.create(...)\<close>, so the engine load is started.
  \<open>CreateResolved c s\<close> resumes call \<open>c\<close> with the session \<open>s\<close>, which is assigned to
  \<open>ortSession\<close>; \<open>CreateRejected c e\<close> resumes it in the \<open>catch\<close> block, which rethrows.
  After a failure the \<open>onStartup\<close> listener schedules a reload of the extension, which
  starts the worker again from its initial state; the reload is outside the model.
\<close>

datatype event = InitCall | CreateResolved nat session | CreateRejected nat js_error

fun step :: "event \<Rightarrow> worker \<Rightarrow> worker option" where
  "step InitCall st =
     Some (st\<lparr>inFlight := inFlight st @ [nextCall st],
              nextCall := nextCall st + 1,
              engineLog := engineLog st @ [CreateSession]\<rparr>)"
| "step (CreateResolved c s) st =
     (if c \<in> set (inFlight st)
      then Some (st\<lparr>ortSession := Some s,
                    inFlight := removeAll c (inFlight st),
                    settled := settled st @ [(c, None)]\<rparr>)
      else None)"
| "step (CreateRejected c e) st =
     (if c \<in> set (inFlight st)
      then Some (st\<lparr>inFlight := removeAll c (inFlight st),
                    settled := settled st @ [(c, Some e)]\<rparr>)
      else None)"

fun exec :: "event list \<Rightarrow> worker \<Rightarrow> worker option" where
  "exec [] st = Some st"
| "exec (ev # evs) st = (case step ev st of None \<Rightarrow> None | Some st' \<Rightarrow> exec evs st')"

text \<open>
  The message the popup sends. Its other fields (\<open>resizeFactor\<close>, \<open>padLeft\<close>, \<open>padTop\<close>)
  are passed on and never read.
\<close>

record request =
  rtype :: string
  tensorData :: "jsnum list"
  dimensions :: "int list"

record summary =
  rawDataLength :: nat
  rawDims :: "int list"
  placeholder :: string

datatype response = Result summary | ErrorResponse string

text \<open>\<open>new Float32Array(numbers)\<close> stores each number, rounded to binary32.\<close>

definition Float32Array_from :: "jsnum list \<Rightarrow> jsnum list" where
  "Float32Array_from xs = map to_float32 xs"

definition log_call :: "engine_call \<Rightarrow> worker \<Rightarrow> worker" where
  "log_call c st = st\<lparr>engineLog := engineLog st @ [c]\<rparr>"

definition not_initialized :: js_error where
  "not_initialized = Error ''Model not initialized. Try again later.''"

text \<open>
  The end of \<open>handleProcessImage\<close>, after the \<open>await\<close>: \<open>ortSession.outputNames[0]\<close> is
  \<open>undefined\<close> for an empty list, the property of that name is the one called
  \<open>undefined\<close>, and reading \<open>.data\<close> of a missing output throws a \<open>TypeError\<close>.
\<close>

definition read_outputs :: "worker \<Rightarrow> (string \<rightharpoonup> tensor) \<Rightarrow> js_error + summary" where
  "read_outputs st outputs =
     (case ortSession st of
        None \<Rightarrow> Inl (TypeError ''Cannot read properties of null'')
      | Some sess \<Rightarrow>
          (let firstOutputName = (case outputNames sess of [] \<Rightarrow> ''undefined'' | n # _ \<Rightarrow> n)
           in (case outputs firstOutputName of
                 None \<Rightarrow> Inl (TypeError ''Cannot read properties of undefined'')
               | Some out \<Rightarrow>
                   Inr \<lparr>rawDataLength = length (tdata out),
                        rawDims = tdims out,
                        placeholder = ''You can do real postprocessing here.''\<rparr>)))"

text \<open>
  \<open>handleProcessImage\<close>. The listener is its only caller and hands it a \<open>Float32Array\<close> as
  \<open>tensorData\<close>, of which \<open>new Float32Array(request.tensorData)\<close> is a copy.
\<close>

definition handleProcessImage ::
  "engine \<Rightarrow> worker \<Rightarrow> request \<Rightarrow> (js_error + summary) \<times> worker" where
  "handleProcessImage eng st request =
     (case ortSession st of
        None \<Rightarrow> (Inl not_initialized, st)
      | Some sess \<Rightarrow>
          (let typedData = tensorData request;
               st1 = log_call (NewTensor typedData (dimensions request)) st
           in (case newTensor eng typedData (dimensions request) of
                 Inl e \<Rightarrow> (Inl e, st1)
               | Inr inputTensor \<Rightarrow>
                   (let st2 = log_call (Run sess inputTensor) st1
                    in (case run eng sess inputTensor of
                          Inl e \<Rightarrow> (Inl e, st2)
                        | Inr outputs \<Rightarrow>
                            (let st3 = log_call (Dispose inputTensor) st2
                             in (case dispose eng inputTensor of
                                   Some e \<Rightarrow> (Inl e, st3)
                                 | None \<Rightarrow> (read_outputs st3 outputs, st3))))))))"

text \<open>
  The \<open>onMessage\<close> listener: the data of a \<open>PROCESS_IMAGE\<close> request are converted to a
  \<open>Float32Array\<close> and the request is answered with the summary, or with
  \<open>{ error: error.message }\<close>; any other message gets no answer.
\<close>

definition onMessage :: "engine \<Rightarrow> worker \<Rightarrow> request \<Rightarrow> response option \<times> worker" where
  "onMessage eng st request =
     (if rtype request = ''PROCESS_IMAGE''
      then (let typedData = Float32Array_from (tensorData request)
            in (case handleProcessImage eng st (request\<lparr>tensorData := typedData\<rparr>) of
                  (Inr r, st') \<Rightarrow> (Some (Result r), st')
                | (Inl e, st') \<Rightarrow> (Some (ErrorResponse (message e)), st')))
      else (None, st))"


section \<open>Concrete instances\<close>

text \<open>
  An engine, a session, two requests, two worker states, the pixels of a canvas and an
  image for the concrete instances below. The engine's tensor constructor rejects data
  whose length is not the product of the dimensions, its \<open>run\<close> rejects every input that
  is not \<open>1 \<times> 3 \<times> 320 \<times> 320\<close>, and its \<open>dispose\<close> returns.
\<close>

definition example_session :: session where
  "example_session = \<lparr>sessionId = 0, outputNames = [''output0'']\<rparr>"

definition example_engine :: engine where
  "example_engine =
     \<lparr>newTensor = (\<lambda>d ds. if int (length d) = prod_list ds
                            then Inr \<lparr>tdata = d, tdims = ds\<rparr>
                            else Inl (Error ''Tensor size does not match data length'')),
      run = (\<lambda>s t. if tdims t = [1, 3, 320, 320]
                     then Inr [''output0'' \<mapsto> \<lparr>tdata = replicate 6 (Fin 0), tdims = [1, 6]\<rparr>]
                     else Inl (Error ''Got invalid dimensions for input: images'')),
      dispose = (\<lambda>t. None)\<rparr>"

definition example_request :: request where
  "example_request =
     \<lparr>rtype = ''PROCESS_IMAGE'', tensorData = replicate 12 (Fin 0), dimensions = [1, 3, 2, 2]\<rparr>"

definition mismatched_request :: request where
  "mismatched_request =
     \<lparr>rtype = ''PROCESS_IMAGE'', tensorData = [Fin 0], dimensions = [1, 3, 320, 320]\<rparr>"

text \<open>What \<open>getImageData\<close> reads back from a canvas that is white and opaque all over.\<close>

definition example_pixels :: "8 word list" where
  "example_pixels = replicate 409600 255"


definition load_error :: js_error where
  "load_error = Error ''failed to load model''"

definition ready :: worker where
  "ready = \<lparr>ortSession = Some example_session, inFlight = [], nextCall = 1,
            settled = [(0, None)], engineLog = [CreateSession]\<rparr>"

definition failed :: worker where
  "failed = \<lparr>ortSession = None, inFlight = [], nextCall = 1,
             settled = [(0, Some load_error)], engineLog = [CreateSession]\<rparr>"


section \<open>Rounding to a binary floating-point format\<close>

lemma ilog2_ge1:
  fixes x :: rat
  assumes "1 \<le> x"
  shows "2 powi (ilog2 x) \<le> x \<and> x < 2 powi (ilog2 x + 1)"
proof -
  define n where "n = nat \<lfloor>x\<rfloor>"
  define k where "k = floorlog 2 n"
  from assms have fx: "1 \<le> \<lfloor>x\<rfloor>" by simp
  then have n: "0 < n" and nx: "of_nat n = (of_int \<lfloor>x\<rfloor> :: rat)"
    by (simp_all add: n_def)
  from floorlog_bounds [of n 2] n have b: "2 ^ (k - 1) \<le> n" "n < 2 ^ k"
    by (simp_all add: k_def)
  from n have k: "0 < k"
    by (simp add: k_def floorlog_def)
  have e: "ilog2 x = int (k - 1)"
    using assms k by (simp add: ilog2_def k_def n_def)
  have e1: "ilog2 x + 1 = int k"
    using e k by simp
  have "(2::rat) ^ (k - 1) \<le> of_nat n"
    using b(1) by (metis of_nat_le_iff of_nat_numeral of_nat_power)
  also have "\<dots> \<le> x"
    by (simp add: nx)
  finally have lo: "2 powi (ilog2 x) \<le> x"
    by (simp add: e)
  from b(2) have "n + 1 \<le> 2 ^ k" by simp
  then have "(of_nat (n + 1) :: rat) \<le> 2 ^ k"
    by (metis of_nat_le_iff of_nat_numeral of_nat_power)
  moreover have "x < of_nat (n + 1)"
    using nx by simp linarith
  ultimately have "x < 2 ^ k" by linarith
  then have hi: "x < 2 powi (ilog2 x + 1)"
    by (simp add: e1)
  from lo hi show ?thesis ..
qed

lemma ilog2_lt1:
  fixes x :: rat
  assumes "0 < x" "x < 1"
  shows "2 powi (ilog2 x) \<le> x \<and> x < 2 powi (ilog2 x + 1)"
proof -
  define y where "y = 1 / x"
  define m where "m = nat (\<lceil>y\<rceil> - 1)"
  define k where "k = floorlog 2 m"
  from assms have y1: "1 < y" by (simp add: y_def)
  then have cy: "2 \<le> \<lceil>y\<rceil>" by (simp add: le_ceiling_iff) 
  then have m: "0 < m" and my: "(of_nat m :: rat) = of_int \<lceil>y\<rceil> - 1"
    by (simp_all add: m_def)
  from floorlog_bounds [of m 2] m have b: "2 ^ (k - 1) \<le> m" "m < 2 ^ k"
    by (simp_all add: k_def)
  from m have k: "0 < k"
    by (simp add: k_def floorlog_def)
  have e: "ilog2 x = - int k"
    using assms by (simp add: ilog2_def k_def m_def y_def)
  have xy: "x = 1 / y" using assms by (simp add: y_def)
  from b(2) have "m + 1 \<le> 2 ^ k" by simp
  then have "(of_nat (m + 1) :: rat) \<le> 2 ^ k"
    by (metis of_nat_le_iff of_nat_numeral of_nat_power)
  moreover have "y \<le> of_nat (m + 1)"
    using my by simp
  ultimately have yk: "y \<le> 2 ^ k" by linarith
  have "(2::rat) ^ (k - 1) \<le> of_nat m"
    using b(1) by (metis of_nat_le_iff of_nat_numeral of_nat_power)
  moreover have "of_nat m < y"
    using my by simp linarith
  ultimately have ky: "2 ^ (k - 1) < y" by linarith
  have "1 / 2 ^ k \<le> 1 / y"
    using yk y1 by (simp add: frac_le)
  moreover have "2 powi (ilog2 x) = 1 / (2::rat) ^ k"
    by (simp add: e power_int_minus_divide)
  ultimately have lo: "2 powi (ilog2 x) \<le> x"
    using xy by simp
  have "1 / y < 1 / 2 ^ (k - 1)"
    using ky y1 by (simp add: frac_less2)
  moreover have "ilog2 x + 1 = - int (k - 1)"
    using e k by simp
  then have "2 powi (ilog2 x + 1) = 1 / (2::rat) ^ (k - 1)"
    by (simp add: power_int_minus_divide)
  ultimately have hi: "x < 2 powi (ilog2 x + 1)"
    using xy by simp
  from lo hi show ?thesis ..
qed

lemma ilog2_bounds:
  fixes x :: rat
  assumes "0 < x"
  shows "2 powi (ilog2 x) \<le> x" and "x < 2 powi (ilog2 x + 1)"
  using ilog2_ge1 [of x] ilog2_lt1 [of x] assms by (cases "1 \<le> x"; simp)+

lemma ilog2_unique:
  fixes x :: rat
  assumes "2 powi k \<le> x" "x < 2 powi (k + 1)"
  shows "ilog2 x = k"
proof -
  have x: "0 < x" using assms(1) by (rule less_le_trans [rotated]) simp
  note b = ilog2_bounds [OF x]
  have "k < ilog2 x + 1"
  proof (rule ccontr)
    assume "\<not> k < ilog2 x + 1"
    then have "(2::rat) powi (ilog2 x + 1) \<le> 2 powi k"
      by (intro power_int_increasing) simp_all
    with assms(1) b(2) show False by linarith
  qed
  moreover have "ilog2 x < k + 1"
  proof (rule ccontr)
    assume "\<not> ilog2 x < k + 1"
    then have "(2::rat) powi (k + 1) \<le> 2 powi (ilog2 x)"
      by (intro power_int_increasing) simp_all
    with assms(2) b(1) show False by linarith
  qed
  ultimately show ?thesis by simp
qed

lemma ilog2_mono:
  assumes "0 < x" "x \<le> y"
  shows "ilog2 x \<le> ilog2 y"
proof (rule ccontr)
  assume "\<not> ilog2 x \<le> ilog2 y"
  then have "(2::rat) powi (ilog2 y + 1) \<le> 2 powi (ilog2 x)"
    by (intro power_int_increasing) simp_all
  moreover have "0 < y" using assms by simp
  ultimately show False
    using ilog2_bounds(1) [OF assms(1)] ilog2_bounds(2) [of y] assms(2) by linarith
qed

lemma two_powi_add: "(2::rat) powi (a + b) = 2 powi a * 2 powi b"
  by (rule power_int_add) simp

lemma rte_cases:
  "round_ties_even y = \<lfloor>y\<rfloor> \<and> y - of_int \<lfloor>y\<rfloor> \<le> 1 / 2 \<or>
   round_ties_even y = \<lfloor>y\<rfloor> + 1 \<and> 1 / 2 \<le> y - of_int \<lfloor>y\<rfloor>"
  by (auto simp: round_ties_even_def Let_def)

lemma rte_error: "\<bar>of_int (round_ties_even y) - y\<bar> \<le> 1 / 2"
proof -
  have "of_int \<lfloor>y\<rfloor> \<le> y" "y < of_int \<lfloor>y\<rfloor> + 1" by linarith+
  with rte_cases [of y] show ?thesis by auto
qed

lemma rte_of_int [simp]: "round_ties_even (of_int n) = n"
  by (simp add: round_ties_even_def)

lemma rte_mono:
  assumes "y \<le> z"
  shows "round_ties_even y \<le> round_ties_even z"
proof (cases "\<lfloor>y\<rfloor> = \<lfloor>z\<rfloor>")
  case True
  with assms show ?thesis
    by (auto simp: round_ties_even_def Let_def)
next
  case False
  with assms have "\<lfloor>y\<rfloor> + 1 \<le> \<lfloor>z\<rfloor>"
    using floor_mono [OF assms] by linarith
  moreover have "round_ties_even y \<le> \<lfloor>y\<rfloor> + 1" "\<lfloor>z\<rfloor> \<le> round_ties_even z"
    using rte_cases [of y] rte_cases [of z] by auto
  ultimately show ?thesis by linarith
qed

lemma fl_pos:
  assumes "0 < x"
  shows "fl p x = of_int (round_ties_even (x * 2 powi (int p - 1 - ilog2 x))) /
                    2 powi (int p - 1 - ilog2 x)"
  using assms by (simp add: fl_def Let_def)

text \<open>
  The rounding error is at most half a unit in the last place, so at most \<open>2\<^sup>-\<^sup>p\<close>
  relative to the value; rounding is monotone and stays inside the binade.
\<close>

lemma fl_error:
  assumes "0 < x"
  shows "\<bar>fl p x - x\<bar> \<le> 2 powi (ilog2 x - int p)"
proof -
  define s :: rat where "s = 2 powi (int p - 1 - ilog2 x)"
  have s: "0 < s" by (simp add: s_def)
  have "fl p x - x = (of_int (round_ties_even (x * s)) - x * s) / s"
    using s by (simp add: fl_pos [OF assms] s_def diff_divide_distrib)
  then have "\<bar>fl p x - x\<bar> = \<bar>of_int (round_ties_even (x * s)) - x * s\<bar> / s"
    using s by (simp add: abs_divide del: of_int_diff)
  also have "\<dots> \<le> (1 / 2) / s"
    using s rte_error [of "x * s"] by (intro divide_right_mono) simp_all
  also have "\<dots> = 2 powi (ilog2 x - int p)"
  proof -
    have "(2::rat) powi (ilog2 x - int p) * (2 powi 1 * s) =
            2 powi (ilog2 x - int p + (1 + (int p - 1 - ilog2 x)))"
      unfolding s_def by (simp only: two_powi_add)
    also have "ilog2 x - int p + (1 + (int p - 1 - ilog2 x)) = 0" by simp
    finally have "(2::rat) powi (ilog2 x - int p) * (2 * s) = 1" by simp
    then show ?thesis
      using s by (simp add: field_simps)
  qed
  finally show ?thesis .
qed

lemma fl_rel_error:
  assumes "0 < x"
  shows "\<bar>fl p x - x\<bar> \<le> x * 2 powi (- int p)"
proof -
  have "(2::rat) powi (ilog2 x - int p) = 2 powi (ilog2 x) * 2 powi (- int p)"
    by (metis diff_conv_add_uminus power_int_add zero_neq_numeral)
  also have "\<dots> \<le> x * 2 powi (- int p)"
    using ilog2_bounds(1) [OF assms] by (intro mult_right_mono) simp_all
  finally show ?thesis
    using fl_error [OF assms, of p] by linarith
qed

lemma fl_range:
  assumes "0 < x" "0 < p"
  shows "2 powi (ilog2 x) \<le> fl p x" and "fl p x \<le> 2 powi (ilog2 x + 1)"
proof -
  define s :: rat where "s = 2 powi (int p - 1 - ilog2 x)"
  have s: "0 < s" by (simp add: s_def)
  note b = ilog2_bounds [OF assms(1)]
  have lo_s: "2 powi (ilog2 x) * s = of_int (2 ^ (p - 1))"
  proof -
    have "2 powi (ilog2 x) * s = (2::rat) powi (ilog2 x + (int p - 1 - ilog2 x))"
      unfolding s_def by (subst power_int_add) simp_all
    also have "ilog2 x + (int p - 1 - ilog2 x) = int (p - 1)"
      using assms(2) by simp
    finally show ?thesis by simp
  qed
  have hi_s: "2 powi (ilog2 x + 1) * s = of_int (2 ^ p)"
  proof -
    have "2 powi (ilog2 x + 1) * s = (2::rat) powi (ilog2 x + 1 + (int p - 1 - ilog2 x))"
      unfolding s_def by (subst power_int_add) simp_all
    also have "ilog2 x + 1 + (int p - 1 - ilog2 x) = int p"
      by simp
    finally show ?thesis by simp
  qed
  have "2 powi (ilog2 x) * s \<le> x * s"
    using b(1) s by (intro mult_right_mono) simp_all
  then have "of_int (2 ^ (p - 1)) \<le> x * s"
    by (simp only: lo_s)
  from rte_mono [OF this] have "(of_int (2 ^ (p - 1)) :: rat) \<le> of_int (round_ties_even (x * s))"
    by (simp del: of_int_power)
  then have "2 powi (ilog2 x) * s \<le> of_int (round_ties_even (x * s))"
    by (simp only: lo_s)
  then show "2 powi (ilog2 x) \<le> fl p x"
    using s by (simp add: fl_pos [OF assms(1)] s_def pos_le_divide_eq)
  have "x * s \<le> 2 powi (ilog2 x + 1) * s"
    using b(2) s by (intro mult_right_mono) simp_all
  then have "x * s \<le> of_int (2 ^ p)"
    by (simp only: hi_s)
  from rte_mono [OF this] have "(of_int (round_ties_even (x * s)) :: rat) \<le> of_int (2 ^ p)"
    by (simp del: of_int_power)
  then have "of_int (round_ties_even (x * s)) \<le> 2 powi (ilog2 x + 1) * s"
    by (simp only: hi_s)
  then show "fl p x \<le> 2 powi (ilog2 x + 1)"
    using s by (simp add: fl_pos [OF assms(1)] s_def pos_divide_le_eq)
qed

lemma fl_positive:
  assumes "0 < x" "0 < p"
  shows "0 < fl p x"
  using fl_range(1) [OF assms] by (rule less_le_trans [rotated]) simp

lemma fl_mono:
  assumes "0 < x" "x \<le> y" "0 < p"
  shows "fl p x \<le> fl p y"
proof -
  have y: "0 < y" using assms by simp
  show ?thesis
  proof (cases "ilog2 x = ilog2 y")
    case True
    define s :: rat where "s = 2 powi (int p - 1 - ilog2 y)"
    have s: "0 < s" by (simp add: s_def)
    have "x * s \<le> y * s" using assms(2) s by simp
    from rte_mono [OF this] have "(of_int (round_ties_even (x * s)) :: rat) \<le> of_int (round_ties_even (y * s))"
      by simp
    then show ?thesis
      using s by (simp add: fl_pos [OF assms(1)] fl_pos [OF y] True s_def divide_right_mono)
  next
    case False
    with ilog2_mono [OF assms(1,2)] have "ilog2 x + 1 \<le> ilog2 y" by simp
    then have "(2::rat) powi (ilog2 x + 1) \<le> 2 powi (ilog2 y)"
      by (intro power_int_increasing) simp_all
    with fl_range(2) [OF assms(1,3)] fl_range(1) [OF y assms(3)] show ?thesis by linarith
  qed
qed

lemma f64_1: "f64 1 = 1" by code_simp

lemma f64_320: "f64 320 = 320" by code_simp


lemma f64_0 [simp]: "f64 0 = 0"
  by (simp add: f64_def fl_def)

lemma f32_0 [simp]: "f32 0 = 0"
  by (simp add: f32_def fl_def)

lemma f64_ge_1: "1 \<le> x \<Longrightarrow> 1 \<le> f64 x"
  using fl_mono [of 1 x 53] f64_1 by (simp add: f64_def)

lemma f64_le_1: "0 < x \<Longrightarrow> x \<le> 1 \<Longrightarrow> f64 x \<le> 1"
  using fl_mono [of x 1 53] f64_1 by (simp add: f64_def)

lemma f64_le_320: "0 < x \<Longrightarrow> x \<le> 320 \<Longrightarrow> f64 x \<le> 320"
  using fl_mono [of x 320 53] f64_320 by (simp add: f64_def)

lemma f64_pos: "0 < x \<Longrightarrow> 0 < f64 x"
  using fl_positive [of x 53] by (simp add: f64_def)

lemma f64_rel_error: "0 < x \<Longrightarrow> \<bar>f64 x - x\<bar> \<le> x / 2 ^ 53"
  using fl_rel_error [of x 53] by (simp add: f64_def power_int_minus_divide)

lemma floor_half [simp]: "\<lfloor>1 / 2 :: rat\<rfloor> = 0"
  by (rule floor_unique) simp_all


section \<open>The resized dimensions\<close>

lemma u32_facts:
  fixes w h :: "32 word"
  shows "unat w < 2 ^ 32" and "0 < w \<longleftrightarrow> 0 < unat w" and "h \<le> w \<longleftrightarrow> unat h \<le> unat w"
    and "w < h \<longleftrightarrow> unat w < unat h"
  using unsigned_less [of w, where 'a = nat]
  by (simp_all add: word_less_nat_alt word_le_nat_alt)

lemma resize_landscape:
  assumes "0 < h" "h \<le> w"
  shows "resize w h =
     (Fin 320, Fin (of_int \<lfloor>f64 (320 / f64 (of_nat (unat w) / of_nat (unat h))) + 1 / 2\<rfloor>))"
proof -
  from assms have H: "0 < unat h" and WH: "unat h \<le> unat w"
    by (simp_all add: word_less_nat_alt word_le_nat_alt)
  define W H :: rat where "W = of_nat (unat w)" and "H = of_nat (unat h)"
  from H WH have "0 < H" "H \<le> W"
    by (simp_all only: W_def H_def of_nat_0_less_iff of_nat_le_iff)
  then have "1 \<le> W / H"
    by simp
  from f64_ge_1 [OF this] have "f64 (W / H) \<noteq> 0"
    by simp
  with \<open>0 < H\<close> assms(2) show ?thesis
    unfolding resize_def num_of_u32_def targetSize_def W_def [symmetric] H_def [symmetric]
    by simp
qed

lemma resize_portrait:
  assumes "w < h"
  shows "resize w h =
     (Fin (of_int \<lfloor>f64 (320 * f64 (of_nat (unat w) / of_nat (unat h))) + 1 / 2\<rfloor>), Fin 320)"
proof -
  define W H :: rat where "W = of_nat (unat w)" and "H = of_nat (unat h)"
  from assms have "0 < unat h"
    by (simp add: word_less_nat_alt)
  then have "0 < H"
    by (simp only: H_def of_nat_0_less_iff)
  moreover from assms have "\<not> h \<le> w"
    by simp
  ultimately show ?thesis
    unfolding resize_def num_of_u32_def targetSize_def W_def [symmetric] H_def [symmetric]
    by simp
qed

lemma landscape_range:
  fixes x :: rat
  assumes "1 \<le> x"
  shows "0 < f64 (320 / f64 x)" and "f64 (320 / f64 x) \<le> 320"
proof -
  from f64_ge_1 [OF assms] have a: "1 \<le> f64 x" .
  then have q: "0 < 320 / f64 x" "320 / f64 x \<le> 320"
    by (simp_all add: field_simps)
  from f64_pos [OF q(1)] show "0 < f64 (320 / f64 x)" .
  from f64_le_320 [OF q] show "f64 (320 / f64 x) \<le> 320" .
qed

lemma portrait_range:
  fixes x :: rat
  assumes "0 < x" "x \<le> 1"
  shows "0 < f64 (320 * f64 x)" and "f64 (320 * f64 x) \<le> 320"
proof -
  from f64_pos [OF assms(1)] f64_le_1 [OF assms] have q: "0 < 320 * f64 x" "320 * f64 x \<le> 320"
    by simp_all
  from f64_pos [OF q(1)] show "0 < f64 (320 * f64 x)" .
  from f64_le_320 [OF q] show "f64 (320 * f64 x) \<le> 320" .
qed

lemma landscape_error:
  fixes x :: rat
  assumes "1 \<le> x"
  shows "\<bar>f64 (320 / f64 x) - 320 / x\<bar> \<le> 640 / 2 ^ 53"
proof -
  define a where "a = f64 x"
  define u :: rat where "u = 1 / 2 ^ 53"
  from assms have x: "0 < x" by simp
  from f64_ge_1 [OF assms] have a: "1 \<le> a" by (simp add: a_def)
  from f64_rel_error [OF x] have ax: "\<bar>a - x\<bar> \<le> x * u" by (simp add: a_def u_def)
  have q0: "0 < 320 / a" "320 / a \<le> 320"
    using a by (simp_all add: field_simps)
  from f64_rel_error [OF q0(1)] have "\<bar>f64 (320 / a) - 320 / a\<bar> \<le> (320 / a) * u"
    by (simp add: u_def)
  also have "\<dots> \<le> 320 * u"
    using q0(2) by (intro mult_right_mono) (simp_all add: u_def)
  finally have e1: "\<bar>f64 (320 / a) - 320 / a\<bar> \<le> 320 * u" .
  have "320 / a - 320 / x = 320 * (x - a) / (a * x)"
    using a x by (simp add: field_simps)
  then have "\<bar>320 / a - 320 / x\<bar> = \<bar>320\<bar> * \<bar>x - a\<bar> / \<bar>a * x\<bar>"
    by (simp only: abs_divide abs_mult)
  also have "\<bar>a * x\<bar> = a * x"
    using a x by simp
  finally have "\<bar>320 / a - 320 / x\<bar> = 320 * \<bar>a - x\<bar> / (a * x)"
    by (simp add: abs_minus_commute)
  also have "\<dots> \<le> 320 * (x * u) / (a * x)"
    using ax a x by (intro divide_right_mono mult_left_mono) simp_all
  also have "\<dots> = 320 * u / a"
    using x by simp
  also have "\<dots> \<le> 320 * u"
    using a by (simp add: u_def field_simps)
  finally have e2: "\<bar>320 / a - 320 / x\<bar> \<le> 320 * u" .
  from e1 e2 have "\<bar>f64 (320 / a) - 320 / x\<bar> \<le> 640 * u"
    by linarith
  then show ?thesis
    by (simp add: a_def u_def)
qed

lemma portrait_error:
  fixes x :: rat
  assumes "0 < x" "x \<le> 1"
  shows "\<bar>f64 (320 * f64 x) - 320 * x\<bar> \<le> 640 / 2 ^ 53"
proof -
  define a where "a = f64 x"
  define u :: rat where "u = 1 / 2 ^ 53"
  from f64_pos [OF assms(1)] f64_le_1 [OF assms] have a: "0 < a" "a \<le> 1"
    by (simp_all add: a_def)
  from f64_rel_error [OF assms(1)] have "\<bar>a - x\<bar> \<le> x * u" by (simp add: a_def u_def)
  also have "\<dots> \<le> u" using assms by (simp add: u_def)
  finally have e2: "\<bar>320 * a - 320 * x\<bar> \<le> 320 * u" by simp
  have q0: "0 < 320 * a" "320 * a \<le> 320"
    using a by simp_all
  from f64_rel_error [OF q0(1)] have "\<bar>f64 (320 * a) - 320 * a\<bar> \<le> (320 * a) * u"
    by (simp add: u_def)
  also have "\<dots> \<le> 320 * u"
    using q0(2) by (intro mult_right_mono) (simp_all add: u_def)
  finally have e1: "\<bar>f64 (320 * a) - 320 * a\<bar> \<le> 320 * u" .
  from e1 e2 have "\<bar>f64 (320 * a) - 320 * x\<bar> \<le> 640 * u"
    by linarith
  then show ?thesis
    by (simp add: a_def u_def)
qed

text \<open>
  A number within \<open>1 / (2 D)\<close> of a fraction \<open>N / D\<close> rounds, with \<open>Math.round\<close>, to
  an integer nearest to the fraction; to the same one, unless the fraction lies halfway
  between two integers.
\<close>

lemma round_near:
  fixes q t :: rat and N D :: int
  assumes D: "0 < D" and t: "t = of_int N / of_int D"
    and close: "\<bar>q - t\<bar> * of_int (2 * D) < 1"
  shows "\<bar>of_int \<lfloor>q + 1 / 2\<rfloor> - t\<bar> \<le> 1 / 2"
    and "t + 1 / 2 \<notin> \<int> \<Longrightarrow> \<lfloor>q + 1 / 2\<rfloor> = \<lfloor>t + 1 / 2\<rfloor>"
proof -
  define E where "E = 2 * D"
  define k where "k = (2 * N + D) div E"
  define r where "r = (2 * N + D) mod E"
  define \<rho> :: rat where "\<rho> = of_int r / of_int E"
  define \<epsilon> :: rat where "\<epsilon> = 1 / of_int E"
  have E: "0 < E" using D by (simp add: E_def)
  have r: "0 \<le> r" "r < E" using E by (simp_all add: r_def)
  have "2 * N + D = E * k + r"
    by (simp add: k_def r_def)
  then have "(of_int (2 * N + D) :: rat) = of_int E * of_int k + of_int r"
    by (metis of_int_add of_int_mult)
  then have "(of_int (2 * N + D) :: rat) / of_int E = of_int k + \<rho>"
    using E by (simp add: \<rho>_def field_simps)
  moreover have "t + 1 / 2 = of_int (2 * N + D) / of_int E"
    using D by (simp add: t E_def field_simps)
  ultimately have th: "t + 1 / 2 = of_int k + \<rho>" by simp
  have eps: "0 < \<epsilon>" "\<epsilon> \<le> 1"
    using E by (simp_all add: \<epsilon>_def)
  have "\<bar>q - t\<bar> * of_int E < 1" using close by (simp add: E_def)
  then have cl: "\<bar>q - t\<bar> < \<epsilon>"
    using E by (simp add: \<epsilon>_def field_simps)
  have rho0: "0 \<le> \<rho>" using r E by (simp add: \<rho>_def)
  have rho1: "\<rho> \<le> 1 - \<epsilon>"
  proof -
    from r(2) have "r \<le> E - 1" by simp
    then have "(of_int r :: rat) \<le> of_int (E - 1)" by (simp only: of_int_le_iff)
    then have "\<rho> \<le> of_int (E - 1) / of_int E"
      unfolding \<rho>_def using E by (intro divide_right_mono) simp_all
    also have "\<dots> = 1 - \<epsilon>" using E by (simp add: \<epsilon>_def field_simps)
    finally show ?thesis .
  qed
  show "\<bar>of_int \<lfloor>q + 1 / 2\<rfloor> - t\<bar> \<le> 1 / 2"
  proof (cases "r = 0")
    case True
    then have tk: "t + 1 / 2 = of_int k" using th by (simp add: \<rho>_def)
    with cl eps have "of_int (k - 1) \<le> q + 1 / 2" "q + 1 / 2 < of_int (k + 1)"
      by simp_all
    then have "k - 1 \<le> \<lfloor>q + 1 / 2\<rfloor>" "\<lfloor>q + 1 / 2\<rfloor> < k + 1"
      by (simp_all only: le_floor_iff floor_less_iff)
    then have "\<lfloor>q + 1 / 2\<rfloor> = k - 1 \<or> \<lfloor>q + 1 / 2\<rfloor> = k" by linarith
    with tk show ?thesis by auto
  next
    case False
    with r have "1 \<le> r" by simp
    then have "(1 :: rat) \<le> of_int r" by simp
    then have "\<epsilon> \<le> \<rho>"
      unfolding \<rho>_def \<epsilon>_def using E by (intro divide_right_mono) simp_all
    with cl th rho1 have "of_int k \<le> q + 1 / 2" "q + 1 / 2 < of_int k + 1"
      by linarith+
    then have fk: "\<lfloor>q + 1 / 2\<rfloor> = k" by (intro floor_unique)
    from th have "of_int k - t = 1 / 2 - \<rho>" by linarith
    moreover from rho0 rho1 eps have "\<bar>1 / 2 - \<rho>\<bar> \<le> 1 / 2" by linarith
    ultimately show ?thesis by (simp only: fk)
  qed
  show "\<lfloor>q + 1 / 2\<rfloor> = \<lfloor>t + 1 / 2\<rfloor>" if "t + 1 / 2 \<notin> \<int>"
  proof -
    have "r \<noteq> 0"
    proof
      assume "r = 0"
      then have "t + 1 / 2 = of_int k" using th by (simp add: \<rho>_def)
      with that show False by simp
    qed
    with r have "1 \<le> r" by simp
    then have "(1 :: rat) \<le> of_int r" by simp
    then have "\<epsilon> \<le> \<rho>"
      unfolding \<rho>_def \<epsilon>_def using E by (intro divide_right_mono) simp_all
    with cl th rho1 have "of_int k \<le> q + 1 / 2" "q + 1 / 2 < of_int k + 1"
      by linarith+
    then have "\<lfloor>q + 1 / 2\<rfloor> = k" by (intro floor_unique)
    moreover from th rho0 rho1 eps have "of_int k \<le> t + 1 / 2" "t + 1 / 2 < of_int k + 1"
      by linarith+
    then have "\<lfloor>t + 1 / 2\<rfloor> = k" by (intro floor_unique)
    ultimately show ?thesis by simp
  qed
qed

lemma close_enough:
  fixes q t :: rat
  assumes "\<bar>q - t\<bar> \<le> 640 / 2 ^ 53" "n < 2 ^ 32"
  shows "\<bar>q - t\<bar> * of_int (2 * int n) < 1"
proof -
  from assms(2) have "int n < 2 ^ 32" by (metis of_nat_less_iff of_nat_numeral of_nat_power)
  then have "(of_int (2 * int n) :: rat) < of_int (2 * 2 ^ 32)"
    by (simp only: of_int_less_iff)
  then have n: "(of_int (2 * int n) :: rat) \<le> 2 * 2 ^ 32" "(0::rat) \<le> of_int (2 * int n)"
    by simp_all
  have "\<bar>q - t\<bar> * of_int (2 * int n) \<le> (640 / 2 ^ 53) * (2 * 2 ^ 32)"
    using assms(1) n by (intro mult_mono) simp_all
  also have "\<dots> < 1" by simp
  finally show ?thesis .
qed

lemma landscape_nearest:
  fixes W H :: nat
  assumes "0 < H" "H \<le> W" "W < 2 ^ 32"
  defines "t \<equiv> 320 * rat_of_nat H / rat_of_nat W"
    and "q \<equiv> f64 (320 / f64 (rat_of_nat W / rat_of_nat H))"
  shows "\<bar>of_int \<lfloor>q + 1 / 2\<rfloor> - t\<bar> \<le> 1 / 2"
    and "t + 1 / 2 \<notin> \<int> \<Longrightarrow> \<lfloor>q + 1 / 2\<rfloor> = \<lfloor>t + 1 / 2\<rfloor>"
    and "0 \<le> \<lfloor>q + 1 / 2\<rfloor>" and "\<lfloor>q + 1 / 2\<rfloor> \<le> 320"
proof -
  define x where "x = rat_of_nat W / rat_of_nat H"
  from assms(1,2) have x: "1 \<le> x" by (simp add: x_def)
  from assms(1,2) have tx: "t = 320 / x" by (simp add: t_def x_def)
  from landscape_error [OF x] have err: "\<bar>q - t\<bar> \<le> 640 / 2 ^ 53"
    by (simp add: q_def tx x_def)
  from assms(1,2) have D: "0 < int W" by simp
  have t: "t = of_int (320 * int H) / of_int (int W)"
    by (simp add: t_def)
  note cl = close_enough [OF err assms(3)]
  from round_near(1) [OF D t cl] show "\<bar>of_int \<lfloor>q + 1 / 2\<rfloor> - t\<bar> \<le> 1 / 2" .
  from round_near(2) [OF D t cl]
  show "t + 1 / 2 \<notin> \<int> \<Longrightarrow> \<lfloor>q + 1 / 2\<rfloor> = \<lfloor>t + 1 / 2\<rfloor>" .
  from landscape_range [OF x] have r: "0 < q" "q \<le> 320" by (simp_all add: q_def x_def)
  from r(1) show "0 \<le> \<lfloor>q + 1 / 2\<rfloor>" by simp
  from r(2) have "\<lfloor>q + 1 / 2\<rfloor> < 321" by (subst floor_less_iff) simp
  then show "\<lfloor>q + 1 / 2\<rfloor> \<le> 320" by simp
qed

lemma portrait_nearest:
  fixes W H :: nat
  assumes "0 < W" "W < H" "H < 2 ^ 32"
  defines "t \<equiv> 320 * rat_of_nat W / rat_of_nat H"
    and "q \<equiv> f64 (320 * f64 (rat_of_nat W / rat_of_nat H))"
  shows "\<bar>of_int \<lfloor>q + 1 / 2\<rfloor> - t\<bar> \<le> 1 / 2"
    and "t + 1 / 2 \<notin> \<int> \<Longrightarrow> \<lfloor>q + 1 / 2\<rfloor> = \<lfloor>t + 1 / 2\<rfloor>"
    and "0 \<le> \<lfloor>q + 1 / 2\<rfloor>" and "\<lfloor>q + 1 / 2\<rfloor> \<le> 320"
proof -
  define x where "x = rat_of_nat W / rat_of_nat H"
  from assms(1,2) have x: "0 < x" "x \<le> 1" by (simp_all add: x_def)
  from assms(1,2) have tx: "t = 320 * x" by (simp add: t_def x_def)
  from portrait_error [OF x] have err: "\<bar>q - t\<bar> \<le> 640 / 2 ^ 53"
    by (simp add: q_def tx x_def)
  from assms(1,2) have D: "0 < int H" by simp
  have t: "t = of_int (320 * int W) / of_int (int H)"
    by (simp add: t_def)
  note cl = close_enough [OF err assms(3)]
  from round_near(1) [OF D t cl] show "\<bar>of_int \<lfloor>q + 1 / 2\<rfloor> - t\<bar> \<le> 1 / 2" .
  from round_near(2) [OF D t cl]
  show "t + 1 / 2 \<notin> \<int> \<Longrightarrow> \<lfloor>q + 1 / 2\<rfloor> = \<lfloor>t + 1 / 2\<rfloor>" .
  from portrait_range [OF x] have r: "0 < q" "q \<le> 320" by (simp_all add: q_def x_def)
  from r(1) show "0 \<le> \<lfloor>q + 1 / 2\<rfloor>" by simp
  from r(2) have "\<lfloor>q + 1 / 2\<rfloor> < 321" by (subst floor_less_iff) simp
  then show "\<lfloor>q + 1 / 2\<rfloor> \<le> 320" by simp
qed

lemma round_640_427: "\<lfloor>f64 (320 / f64 (640 / 427)) + 1 / 2\<rfloor> = 213"
  by code_simp

lemma resize_640_427: "resize 640 427 = (Fin 320, Fin 213)"
proof -
  have "resize 640 427 =
          (Fin 320, Fin (of_int \<lfloor>f64 (320 / f64 (rat_of_nat (unat (640 :: 32 word)) /
             rat_of_nat (unat (427 :: 32 word)))) + 1 / 2\<rfloor>))"
    by (rule resize_landscape) simp_all
  also have "rat_of_nat (unat (640 :: 32 word)) = 640" by simp
  also have "rat_of_nat (unat (427 :: 32 word)) = 427" by simp
  finally show ?thesis by (simp only: round_640_427) simp
qed

lemma round_320_320: "\<lfloor>f64 (320 / f64 (320 / 320)) + 1 / 2\<rfloor> = 320"
  by code_simp




lemma nat_to_rat_less:
  "a * m < b * n \<Longrightarrow> rat_of_nat a * rat_of_nat m < rat_of_nat b * rat_of_nat n"
  by (metis of_nat_less_iff of_nat_mult)

lemma tie_landscape_half: "\<lfloor>f64 (320 / f64 640) + 1 / 2\<rfloor> = 1"
  by code_simp

lemma tie_portrait_half: "\<lfloor>f64 (320 * f64 (1 / 640)) + 1 / 2\<rfloor> = 1"
  by code_simp

lemma tie_landscape_full: "\<lfloor>f64 (320 / f64 (640 / 639)) + 1 / 2\<rfloor> = 320"
  by code_simp

lemma tie_portrait_full: "\<lfloor>f64 (320 * f64 (639 / 640)) + 1 / 2\<rfloor> = 320"
  by code_simp

text \<open>
  Where the nearest integer to \<open>t\<close> lies, from the side of a half-integer that \<open>t\<close> is on.
\<close>

lemma nearest_below:
  fixes t :: rat
  assumes "\<bar>of_int n - t\<bar> \<le> 1 / 2" "t < of_int k - 1 / 2"
  shows "n < k"
proof -
  from assms have "rat_of_int n < of_int k" by linarith
  then show ?thesis by (simp only: of_int_less_iff)
qed

lemma nearest_above:
  fixes t :: rat
  assumes "\<bar>of_int n - t\<bar> \<le> 1 / 2" "of_int k - 1 / 2 < t"
  shows "k \<le> n"
proof -
  from assms have "rat_of_int k - 1 < of_int n" by linarith
  then have "rat_of_int (k - 1) < of_int n" by simp
  then have "k - 1 < n" by (simp only: of_int_less_iff)
  then show ?thesis by simp
qed

text \<open>
  The resized shorter side is 320 exactly when 639 times the longer side is at most 640
  times the shorter one, and 0 exactly when the longer side is more than 640 times the
  shorter one. On the two boundaries the quotient of the sides is the same for every
  such image, so the rounded result is one computed value.
\<close>

lemma landscape_side:
  fixes W H :: nat
  assumes "0 < H" "H \<le> W" "W < 2 ^ 32"
  defines "n \<equiv> \<lfloor>f64 (320 / f64 (rat_of_nat W / rat_of_nat H)) + 1 / 2\<rfloor>"
  shows "(n = 320) = (639 * W \<le> 640 * H)" and "(n = 0) = (640 * H < W)"
proof -
  define t where "t = 320 * rat_of_nat H / rat_of_nat W"
  from assms(1,2) have W: "0 < rat_of_nat W" by simp
  note near = landscape_nearest(1) [OF assms(1-3), folded n_def t_def]
  note range = landscape_nearest(3,4) [OF assms(1-3), folded n_def]
  have full: "n = 320" if "639 * W \<le> 640 * H"
  proof (cases "639 * W = 640 * H")
    case True
    then have "rat_of_nat 639 * rat_of_nat W = rat_of_nat 640 * rat_of_nat H"
      by (metis of_nat_mult)
    with assms(1) have "rat_of_nat W / rat_of_nat H = 640 / 639"
      by (simp add: field_simps)
    then show ?thesis
      unfolding n_def by (simp only: tie_landscape_full)
  next
    case False
    with that have "639 * W < 640 * H" by simp
    from nat_to_rat_less [OF this] W have "of_int 320 - 1 / 2 < t"
      by (simp add: t_def field_simps)
    from nearest_above [OF near this] range(2) show ?thesis by simp
  qed
  have not_full: "n < 320" if "640 * H < 639 * W"
  proof -
    from nat_to_rat_less [OF that] W have "t < of_int 320 - 1 / 2"
      by (simp add: t_def field_simps)
    from nearest_below [OF near this] show ?thesis .
  qed
  show "(n = 320) = (639 * W \<le> 640 * H)"
    using full not_full by (cases "639 * W \<le> 640 * H") auto
  have pos: "1 \<le> n" if "W \<le> 640 * H"
  proof (cases "W = 640 * H")
    case True
    with assms(1) have "rat_of_nat W / rat_of_nat H = 640"
      by simp
    then show ?thesis
      unfolding n_def by (simp only: tie_landscape_half)
  next
    case False
    with that have "1 * W < 640 * H" by simp
    from nat_to_rat_less [OF this] W have "of_int 1 - 1 / 2 < t"
      by (simp add: t_def field_simps)
    from nearest_above [OF near this] show ?thesis .
  qed
  have zero: "n = 0" if "640 * H < W"
  proof -
    from that have "640 * H < 1 * W" by simp
    from nat_to_rat_less [OF this] W have "t < of_int 1 - 1 / 2"
      by (simp add: t_def field_simps)
    from nearest_below [OF near this] range(1) show ?thesis by simp
  qed
  show "(n = 0) = (640 * H < W)"
    using pos zero by (cases "640 * H < W") auto
qed

lemma portrait_side:
  fixes W H :: nat
  assumes "0 < W" "W < H" "H < 2 ^ 32"
  defines "n \<equiv> \<lfloor>f64 (320 * f64 (rat_of_nat W / rat_of_nat H)) + 1 / 2\<rfloor>"
  shows "(n = 320) = (639 * H \<le> 640 * W)" and "(n = 0) = (640 * W < H)"
proof -
  define t where "t = 320 * rat_of_nat W / rat_of_nat H"
  from assms(1,2) have H: "0 < rat_of_nat H" by simp
  note near = portrait_nearest(1) [OF assms(1-3), folded n_def t_def]
  note range = portrait_nearest(3,4) [OF assms(1-3), folded n_def]
  have full: "n = 320" if "639 * H \<le> 640 * W"
  proof (cases "639 * H = 640 * W")
    case True
    then have "rat_of_nat 639 * rat_of_nat H = rat_of_nat 640 * rat_of_nat W"
      by (metis of_nat_mult)
    with H have "rat_of_nat W / rat_of_nat H = 639 / 640"
      by (simp add: field_simps)
    then show ?thesis
      unfolding n_def by (simp only: tie_portrait_full)
  next
    case False
    with that have "639 * H < 640 * W" by simp
    from nat_to_rat_less [OF this] H have "of_int 320 - 1 / 2 < t"
      by (simp add: t_def field_simps)
    from nearest_above [OF near this] range(2) show ?thesis by simp
  qed
  have not_full: "n < 320" if "640 * W < 639 * H"
  proof -
    from nat_to_rat_less [OF that] H have "t < of_int 320 - 1 / 2"
      by (simp add: t_def field_simps)
    from nearest_below [OF near this] show ?thesis .
  qed
  show "(n = 320) = (639 * H \<le> 640 * W)"
    using full not_full by (cases "639 * H \<le> 640 * W") auto
  have pos: "1 \<le> n" if "H \<le> 640 * W"
  proof (cases "H = 640 * W")
    case True
    with assms(1) have "rat_of_nat W / rat_of_nat H = 1 / 640"
      by simp
    then show ?thesis
      unfolding n_def by (simp only: tie_portrait_half)
  next
    case False
    with that have "1 * H < 640 * W" by simp
    from nat_to_rat_less [OF this] H have "of_int 1 - 1 / 2 < t"
      by (simp add: t_def field_simps)
    from nearest_above [OF near this] show ?thesis .
  qed
  have zero: "n = 0" if "640 * W < H"
  proof -
    from that have "640 * W < 1 * H" by simp
    from nat_to_rat_less [OF this] H have "t < of_int 1 - 1 / 2"
      by (simp add: t_def field_simps)
    from nearest_below [OF near this] range(1) show ?thesis by simp
  qed
  show "(n = 0) = (640 * W < H)"
    using pos zero by (cases "640 * W < H") auto
qed

text \<open>
  C2, as stated, fails: for a 640 x 427 image, 320 * 427 / 640 is 213.5, which rounds to
  214, but the code divides 320 by the binary64 quotient 640 / 427, gets a number just
  below 213.5 and so \<open>newHeight = 213\<close>.
\<close>

theorem resize_round_counterexample:
  "(427 :: 32 word) \<le> 640 \<and> resize 640 427 = (Fin 320, Fin 213) \<and>
   \<lfloor>320 * 427 / 640 + 1 / 2 :: rat\<rfloor> = 214"
proof -
  have "\<lfloor>320 * 427 / 640 + 1 / 2 :: rat\<rfloor> = 214"
    by (rule floor_unique) simp_all
  with resize_640_427 show ?thesis by simp
qed

text \<open>
  C2, amended. For every image whose width and height are at least 1: if the width is
  at least the height, \<open>newWidth\<close> is 320 and \<open>newHeight\<close> is an integer nearest to
  320 * height / width, namely \<open>round(320 * height / width)\<close> unless that quotient lies
  exactly halfway between two integers; and the same with the two sides exchanged if the
  height is larger.
\<close>

theorem resize_nearest:
  assumes "0 < w" "0 < h"
  shows "(h \<le> w \<longrightarrow>
          (\<exists>n. resize w h = (Fin 320, Fin (of_int n)) \<and>
               \<bar>of_int n - 320 * rat_of_nat (unat h) / rat_of_nat (unat w)\<bar> \<le> 1 / 2 \<and>
               (320 * rat_of_nat (unat h) / rat_of_nat (unat w) + 1 / 2 \<notin> \<int> \<longrightarrow>
                  n = \<lfloor>320 * rat_of_nat (unat h) / rat_of_nat (unat w) + 1 / 2\<rfloor>))) \<and>
         (w < h \<longrightarrow>
          (\<exists>n. resize w h = (Fin (of_int n), Fin 320) \<and>
               \<bar>of_int n - 320 * rat_of_nat (unat w) / rat_of_nat (unat h)\<bar> \<le> 1 / 2 \<and>
               (320 * rat_of_nat (unat w) / rat_of_nat (unat h) + 1 / 2 \<notin> \<int> \<longrightarrow>
                  n = \<lfloor>320 * rat_of_nat (unat w) / rat_of_nat (unat h) + 1 / 2\<rfloor>)))"
proof (intro conjI impI)
  assume hw: "h \<le> w"
  from assms hw have n: "0 < unat h" "unat h \<le> unat w" "unat w < 2 ^ 32"
    by (simp_all only: u32_facts)
  from resize_landscape [OF assms(2) hw] landscape_nearest(1,2) [OF n]
  show "\<exists>n. resize w h = (Fin 320, Fin (of_int n)) \<and>
               \<bar>of_int n - 320 * rat_of_nat (unat h) / rat_of_nat (unat w)\<bar> \<le> 1 / 2 \<and>
               (320 * rat_of_nat (unat h) / rat_of_nat (unat w) + 1 / 2 \<notin> \<int> \<longrightarrow>
                  n = \<lfloor>320 * rat_of_nat (unat h) / rat_of_nat (unat w) + 1 / 2\<rfloor>)"
    by blast
next
  assume wh: "w < h"
  from assms wh have n: "0 < unat w" "unat w < unat h" "unat h < 2 ^ 32"
    by (simp_all only: u32_facts)
  from resize_portrait [OF wh] portrait_nearest(1,2) [OF n]
  show "\<exists>n. resize w h = (Fin (of_int n), Fin 320) \<and>
               \<bar>of_int n - 320 * rat_of_nat (unat w) / rat_of_nat (unat h)\<bar> \<le> 1 / 2 \<and>
               (320 * rat_of_nat (unat w) / rat_of_nat (unat h) + 1 / 2 \<notin> \<int> \<longrightarrow>
                  n = \<lfloor>320 * rat_of_nat (unat w) / rat_of_nat (unat h) + 1 / 2\<rfloor>)"
    by blast
qed

theorem resize_nearest_witness:
  "(0 :: 32 word) < 640 \<and> (0 :: 32 word) < 480 \<and> (480 :: 32 word) \<le> 640 \<and>
   resize 640 480 = (Fin 320, Fin 240) \<and>
   (480 :: 32 word) < 640 \<and> resize 480 640 = (Fin 240, Fin 320)"
proof -
  have h: "(0 :: 32 word) < 640" "(0 :: 32 word) < 480" "(480 :: 32 word) \<le> 640"
    "(480 :: 32 word) < 640"
    by simp_all
  have t: "320 * rat_of_nat (unat (480 :: 32 word)) / rat_of_nat (unat (640 :: 32 word)) =
             of_int 240"
    by simp
  have near: "n = 240" if "\<bar>rat_of_int n - of_int 240\<bar> \<le> 1 / 2" for n
  proof -
    from that have "\<bar>rat_of_int n - 240\<bar> \<le> 1 / 2" by simp
    then have "rat_of_int n < 241" "239 < rat_of_int n" by linarith+
    then have "n < 241" "239 < n" by simp_all
    then show ?thesis by simp
  qed
  from resize_nearest [OF h(1,2)] h(3) obtain n
    where n: "resize 640 480 = (Fin 320, Fin (of_int n))"
      "\<bar>of_int n - 320 * rat_of_nat (unat (480 :: 32 word)) /
         rat_of_nat (unat (640 :: 32 word))\<bar> \<le> 1 / 2"
    by blast
  from n(2) have "n = 240"
    unfolding t by (rule near)
  with n(1) have a: "resize 640 480 = (Fin 320, Fin 240)"
    by simp
  from resize_nearest [OF h(2,1)] h(4) obtain m
    where m: "resize 480 640 = (Fin (of_int m), Fin 320)"
      "\<bar>of_int m - 320 * rat_of_nat (unat (480 :: 32 word)) /
         rat_of_nat (unat (640 :: 32 word))\<bar> \<le> 1 / 2"
    by blast
  from m(2) have "m = 240"
    unfolding t by (rule near)
  with m(1) have b: "resize 480 640 = (Fin 240, Fin 320)"
    by simp
  from h a b show ?thesis by simp
qed

text \<open>
  C7, as stated, fails: for a square image both resized dimensions are 320.
\<close>

theorem resize_both_sides_counterexample:
  "resize 320 320 = (Fin 320, Fin 320)"
proof -
  have "resize 320 320 =
          (Fin 320, Fin (of_int \<lfloor>f64 (320 / f64 (rat_of_nat (unat (320 :: 32 word)) /
             rat_of_nat (unat (320 :: 32 word)))) + 1 / 2\<rfloor>))"
    by (rule resize_landscape) simp_all
  also have "rat_of_nat (unat (320 :: 32 word)) = 320" by simp
  finally show ?thesis by (simp only: round_320_320) simp
qed


text \<open>
  C7, amended. For every image whose width and height are at least 1, neither resized
  dimension exceeds 320 and the one of the longer side (the width, if the two are equal)
  is 320. Exactly one of the two is 320 if 640 times the shorter side is less than 639
  times the longer side; otherwise the shorter side is resized to 320 as well and both
  are 320, as for every square image.
\<close>

theorem resize_one_side:
  assumes "0 < w" "0 < h"
  shows "(h \<le> w \<longrightarrow>
          (\<exists>n. resize w h = (Fin 320, Fin (of_int n)) \<and> 0 \<le> n \<and> n \<le> 320 \<and>
               (n = 320) = (639 * unat w \<le> 640 * unat h))) \<and>
         (w < h \<longrightarrow>
          (\<exists>n. resize w h = (Fin (of_int n), Fin 320) \<and> 0 \<le> n \<and> n \<le> 320 \<and>
               (n = 320) = (639 * unat h \<le> 640 * unat w)))"
proof (intro conjI impI)
  assume hw: "h \<le> w"
  from assms hw have n: "0 < unat h" "unat h \<le> unat w" "unat w < 2 ^ 32"
    by (simp_all only: u32_facts)
  from resize_landscape [OF assms(2) hw] landscape_nearest(3,4) [OF n] landscape_side(1) [OF n]
  show "\<exists>n. resize w h = (Fin 320, Fin (of_int n)) \<and> 0 \<le> n \<and> n \<le> 320 \<and>
               (n = 320) = (639 * unat w \<le> 640 * unat h)"
    by blast
next
  assume wh: "w < h"
  from assms wh have n: "0 < unat w" "unat w < unat h" "unat h < 2 ^ 32"
    by (simp_all only: u32_facts)
  from resize_portrait [OF wh] portrait_nearest(3,4) [OF n] portrait_side(1) [OF n]
  show "\<exists>n. resize w h = (Fin (of_int n), Fin 320) \<and> 0 \<le> n \<and> n \<le> 320 \<and>
               (n = 320) = (639 * unat h \<le> 640 * unat w)"
    by blast
qed

theorem resize_one_side_witness:
  "(0 :: 32 word) < 640 \<and> (0 :: 32 word) < 480 \<and> (480 :: 32 word) \<le> 640 \<and>
   (\<exists>n. resize 640 480 = (Fin 320, Fin (of_int n)) \<and> 0 \<le> n \<and> n < 320) \<and>
   (480 :: 32 word) < 640 \<and>
   (\<exists>n. resize 480 640 = (Fin (of_int n), Fin 320) \<and> 0 \<le> n \<and> n < 320)"
proof -
  have h: "(0 :: 32 word) < 640" "(0 :: 32 word) < 480" "(480 :: 32 word) \<le> 640"
    "(480 :: 32 word) < 640"
    by simp_all
  have c: "\<not> 639 * unat (640 :: 32 word) \<le> 640 * unat (480 :: 32 word)"
    by simp
  from resize_one_side [OF h(1,2)] h(3) c
  have a: "\<exists>n. resize 640 480 = (Fin 320, Fin (of_int n)) \<and> 0 \<le> n \<and> n < 320"
    by force
  from resize_one_side [OF h(2,1)] h(4) c
  have b: "\<exists>n. resize 480 640 = (Fin (of_int n), Fin 320) \<and> 0 \<le> n \<and> n < 320"
    by force
  from h a b show ?thesis by blast
qed


section \<open>The result of \<open>processImage\<close>\<close>

lemma processImage_Inr:
  "processImage w h (Inr d) =
     Inr \<lparr>float32Data = to_nchw d,
          dims = [1, 3, targetSize, targetSize],
          resizeFactor = Fin 1,
          padLeft = pad_before (fst (resize w h)),
          padTop = pad_before (snd (resize w h))\<rparr>"
  by (simp add: processImage_def split_def Let_def)


lemma fill_length [simp]: "length (fill d i out) = length out"
proof (induction d i out rule: fill.induct)
  case (1 d i out)
  show ?case
  proof (cases "i < length d")
    case True
    with "1.IH" [OF True refl] show ?thesis
      by (subst fill.simps) (simp add: Let_def)
  next
    case False
    then show ?thesis by (subst fill.simps) simp
  qed
qed































lemma min_scale:
  fixes W H :: nat
  assumes "0 < W" "0 < H"
  shows "(min (320 / rat_of_nat W) (320 / rat_of_nat H) = 1) = (max W H = 320)"
proof (cases "W \<le> H")
  case True
  with assms have "320 / rat_of_nat H \<le> 320 / rat_of_nat W"
    by (simp add: frac_le)
  then have "min (320 / rat_of_nat W) (320 / rat_of_nat H) = 320 / rat_of_nat H"
    by simp
  moreover have "(320 / rat_of_nat H = 1) = (H = 320)"
    using assms(2) by (simp add: field_simps)
  ultimately show ?thesis using True by (simp add: max_def)
next
  case False
  with assms have "320 / rat_of_nat W \<le> 320 / rat_of_nat H"
    by (simp add: frac_le)
  then have "min (320 / rat_of_nat W) (320 / rat_of_nat H) = 320 / rat_of_nat W"
    by simp
  moreover have "(320 / rat_of_nat W = 1) = (W = 320)"
    using assms(1) by (simp add: field_simps)
  ultimately show ?thesis using False by (simp add: max_def)
qed

text \<open>
  C4, as stated, fails: for a 640 x 480 image \<open>resizeFactor\<close> is 1, and
  min(320 / 640, 320 / 480) is 1 / 2.
\<close>

theorem resizeFactor_counterexample:
  "map_sum id resizeFactor (processImage 640 480 (Inr example_pixels)) = Inr (Fin 1) \<and>
   min (320 / rat_of_nat (unat (640 :: 32 word))) (320 / rat_of_nat (unat (480 :: 32 word))) =
     1 / 2"
  by (simp add: processImage_Inr)

text \<open>
  C4, amended. \<open>resizeFactor\<close> is the constant 1 for every image; for an image whose
  width and height are at least 1 it equals min(320 / width, 320 / height) exactly when
  the longer side of the image is 320.
\<close>

theorem resizeFactor_constant:
  "\<exists>r. processImage w h (Inr d) = Inr r \<and> resizeFactor r = Fin 1 \<and>
       (0 < w \<longrightarrow> 0 < h \<longrightarrow>
          (resizeFactor r = Fin (min (320 / rat_of_nat (unat w)) (320 / rat_of_nat (unat h)))) =
          (max w h = 320))"
proof -
  have "(min (320 / rat_of_nat (unat w)) (320 / rat_of_nat (unat h)) = 1) = (max w h = 320)"
    if "0 < w" "0 < h"
  proof -
    from that have "0 < unat w" "0 < unat h" by (simp_all only: u32_facts)
    from min_scale [OF this] have
      "(min (320 / rat_of_nat (unat w)) (320 / rat_of_nat (unat h)) = 1) =
       (max (unat w) (unat h) = 320)" .
    also have "max (unat w) (unat h) = unat (max w h)"
      by (simp add: max_def word_le_nat_alt)
    also have "(unat (max w h) = 320) = (max w h = 320)"
      using word_unat_eq_iff [of "max w h" 320] by simp
    finally show ?thesis .
  qed
  moreover have "(Fin 1 = Fin x) = (x = 1)" for x
    by auto
  ultimately show ?thesis
    unfolding processImage_Inr by simp
qed

theorem resizeFactor_constant_witness:
  "(0 :: 32 word) < 320 \<and> (0 :: 32 word) < 240 \<and>
   (\<exists>r. processImage 320 240 (Inr example_pixels) = Inr r \<and> resizeFactor r = Fin 1 \<and>
        resizeFactor r =
          Fin (min (320 / rat_of_nat (unat (320 :: 32 word)))
                   (320 / rat_of_nat (unat (240 :: 32 word)))))"
proof -
  have h: "(0 :: 32 word) < 320" "(0 :: 32 word) < 240" "max (320 :: 32 word) 240 = 320"
    by simp_all
  from resizeFactor_constant [of 320 240 example_pixels] h show ?thesis
    by blast
qed





section \<open>The model session\<close>

lemma step_ortSession:
  "step ev st = Some st' \<Longrightarrow>
     ortSession st' = ortSession st \<or> (\<exists>c s. ev = CreateResolved c s \<and> ortSession st' = Some s)"
  by (cases ev) (auto split: if_splits)

lemma exec_ortSession:
  "exec evs st = Some st' \<Longrightarrow>
     ortSession st' = ortSession st \<or>
     (\<exists>c s. CreateResolved c s \<in> set evs \<and> ortSession st' = Some s)"
proof (induction evs arbitrary: st)
  case Nil
  then show ?case by simp
next
  case (Cons ev evs)
  from Cons.prems obtain st1 where s1: "step ev st = Some st1" and e1: "exec evs st1 = Some st'"
    by (auto split: option.splits)
  from Cons.IH [OF e1] step_ortSession [OF s1] show ?case
    by auto
qed

lemma exec_failed: "exec [InitCall, CreateRejected 0 load_error] initial = Some failed"
  by (simp add: initial_def failed_def)

lemma exec_ready: "exec [InitCall, CreateResolved 0 example_session] initial = Some ready"
  by (simp add: initial_def ready_def)

text \<open>
  C3. As long as no call of \<open>InferenceSession.create\<close> has resolved, a \<open>PROCESS_IMAGE\<close>
  request is answered with the error "Model not initialized. Try again later." and the
  worker, with its log of engine calls, is as it was before: the engine is not called.
\<close>

theorem session_gating:
  assumes "exec evs initial = Some st"
    and "\<forall>c s. CreateResolved c s \<notin> set evs"
    and "rtype request = ''PROCESS_IMAGE''"
  shows "handleProcessImage eng st request = (Inl not_initialized, st) \<and>
         onMessage eng st request =
           (Some (ErrorResponse ''Model not initialized. Try again later.''), st)"
proof -
  from exec_ortSession [OF assms(1)] assms(2) have "ortSession st = None"
    by (auto simp: initial_def)
  then have h: "handleProcessImage eng st rq = (Inl not_initialized, st)" for rq
    by (simp add: handleProcessImage_def)
  with assms(3) show ?thesis
    by (simp add: onMessage_def not_initialized_def Let_def)
qed

theorem session_gating_witness:
  "exec [InitCall, CreateRejected 0 load_error] initial = Some failed \<and>
   handleProcessImage example_engine failed example_request = (Inl not_initialized, failed) \<and>
   onMessage example_engine failed example_request =
     (Some (ErrorResponse ''Model not initialized. Try again later.''), failed)"
proof -
  have h2: "\<forall>c s. CreateResolved c s \<notin> set [InitCall, CreateRejected 0 load_error]"
    by simp
  have h3: "rtype example_request = ''PROCESS_IMAGE''"
    by (simp add: example_request_def)
  from session_gating [OF exec_failed h2 h3, of example_engine] exec_failed show ?thesis
    by simp
qed

lemma handleProcessImage_ortSession:
  "ortSession (snd (handleProcessImage eng st request)) = ortSession st"
  by (simp add: handleProcessImage_def log_call_def Let_def split: option.splits sum.splits)

text \<open>
  C10. In every state the worker reaches, \<open>ortSession\<close> is \<open>null\<close> or a session with
  which a call of \<open>InferenceSession.create\<close> resolved; a call of \<open>initializeModel\<close> that
  fails leaves \<open>ortSession\<close> as it was, and so does the handling of a request.
\<close>

theorem session_reference:
  assumes "exec evs initial = Some st"
  shows "(ortSession st = None \<or>
          (\<exists>c s. CreateResolved c s \<in> set evs \<and> ortSession st = Some s)) \<and>
         (\<forall>c e st'. step (CreateRejected c e) st = Some st' \<longrightarrow>
            ortSession st' = ortSession st) \<and>
         ortSession (snd (handleProcessImage eng st request)) = ortSession st"
proof (intro conjI)
  from exec_ortSession [OF assms]
  show "ortSession st = None \<or>
        (\<exists>c s. CreateResolved c s \<in> set evs \<and> ortSession st = Some s)"
    by (auto simp: initial_def)
next
  show "\<forall>c e st'. step (CreateRejected c e) st = Some st' \<longrightarrow> ortSession st' = ortSession st"
    by (auto split: if_splits)
next
  show "ortSession (snd (handleProcessImage eng st request)) = ortSession st"
    by (rule handleProcessImage_ortSession)
qed

theorem session_reference_witness:
  "exec [InitCall, CreateResolved 0 example_session, InitCall] initial =
     Some (ready\<lparr>inFlight := [1], nextCall := 2, engineLog := [CreateSession, CreateSession]\<rparr>) \<and>
   step (CreateRejected 1 load_error)
     (ready\<lparr>inFlight := [1], nextCall := 2, engineLog := [CreateSession, CreateSession]\<rparr>) =
     Some (ready\<lparr>inFlight := [], nextCall := 2, settled := [(0, None), (1, Some load_error)],
                 engineLog := [CreateSession, CreateSession]\<rparr>) \<and>
   ortSession (ready\<lparr>inFlight := [], nextCall := 2, settled := [(0, None), (1, Some load_error)],
                 engineLog := [CreateSession, CreateSession]\<rparr>) = Some example_session"
proof -
  have h: "exec [InitCall, CreateResolved 0 example_session, InitCall] initial =
     Some (ready\<lparr>inFlight := [1], nextCall := 2, engineLog := [CreateSession, CreateSession]\<rparr>)"
    by (simp add: initial_def ready_def)
  from session_reference [OF h] h show ?thesis
    by (simp add: ready_def)
qed

lemma count_step:
  "step ev st = Some st' \<Longrightarrow>
     length (filter ((=) CreateSession) (engineLog st')) =
       length (filter ((=) CreateSession) (engineLog st)) + (if ev = InitCall then 1 else 0)"
  by (cases ev) (auto split: if_splits)

lemma count_exec:
  "exec evs st = Some st' \<Longrightarrow>
     length (filter ((=) CreateSession) (engineLog st')) =
       length (filter ((=) CreateSession) (engineLog st)) + length (filter ((=) InitCall) evs)"
proof (induction evs arbitrary: st)
  case Nil
  then show ?case by simp
next
  case (Cons ev evs)
  from Cons.prems obtain st1 where s1: "step ev st = Some st1" and e1: "exec evs st1 = Some st'"
    by (auto split: option.splits)
  from Cons.IH [OF e1] count_step [OF s1] show ?case
    by auto
qed

text \<open>
  C6, as stated, fails: two calls of \<open>initializeModel\<close> that overlap start two engine
  loads, and one caller may see its load succeed while the other sees its own fail.
\<close>

theorem concurrent_initialize_counterexample:
  "exec [InitCall, InitCall, CreateResolved 0 example_session, CreateRejected 1 load_error]
     initial =
     Some \<lparr>ortSession = Some example_session, inFlight = [], nextCall = 2,
           settled = [(0, None), (1, Some load_error)],
           engineLog = [CreateSession, CreateSession]\<rparr>"
  by (simp add: initial_def)

text \<open>
  C6, amended. Calls of \<open>initializeModel\<close> are not coalesced: in every state the worker
  reaches, \<open>InferenceSession.create\<close> has been called once for each call of
  \<open>initializeModel\<close>, whether or not another call was still waiting.
\<close>

theorem one_load_per_call:
  assumes "exec evs initial = Some st"
  shows "length (filter ((=) CreateSession) (engineLog st)) = length (filter ((=) InitCall) evs)"
  using count_exec [OF assms] by (simp add: initial_def)

theorem one_load_per_call_witness:
  "exec [InitCall, InitCall] initial =
     Some \<lparr>ortSession = None, inFlight = [0, 1], nextCall = 2, settled = [],
           engineLog = [CreateSession, CreateSession]\<rparr> \<and>
   length (filter ((=) CreateSession) [CreateSession, CreateSession]) =
     length (filter ((=) InitCall) [InitCall, InitCall])"
proof -
  have h: "exec [InitCall, InitCall] initial =
     Some \<lparr>ortSession = None, inFlight = [0, 1], nextCall = 2, settled = [],
           engineLog = [CreateSession, CreateSession]\<rparr>"
    by (simp add: initial_def)
  from one_load_per_call [OF h] h show ?thesis
    by simp
qed


section \<open>Handling a request\<close>

text \<open>
  With a session loaded and the input tensor built, the two ways out of the \<open>await\<close>:
  when \<open>session.run\<close> returns, \<open>dispose\<close> is called on the tensor before the outputs are
  read; when it throws, the function is left at once and \<open>dispose\<close> is not reached.
\<close>

lemma dispose_when_run_returns:
  assumes "ortSession st = Some sess"
    and "newTensor eng (tensorData request) (dimensions request) = Inr t"
    and "run eng sess t = Inr outputs"
  shows "engineLog (snd (handleProcessImage eng st request)) =
           engineLog st @
             [NewTensor (tensorData request) (dimensions request), Run sess t, Dispose t]"
  using assms by (simp add: handleProcessImage_def log_call_def Let_def split: option.splits)

lemma no_dispose_when_run_throws:
  assumes "ortSession st = Some sess"
    and "newTensor eng (tensorData request) (dimensions request) = Inr t"
    and "run eng sess t = Inl e"
  shows "handleProcessImage eng st request =
           (Inl e, st\<lparr>engineLog := engineLog st @
              [NewTensor (tensorData request) (dimensions request), Run sess t]\<rparr>)"
  using assms by (simp add: handleProcessImage_def log_call_def Let_def)

text \<open>
  C9 fails where \<open>session.run\<close> throws: for a request that the engine's \<open>run\<close> rejects,
  the log of engine calls ends with the call of \<open>run\<close>, and the input tensor is never
  disposed.
\<close>

theorem dispose_skipped_when_run_throws:
  "handleProcessImage example_engine ready example_request =
     (Inl (Error ''Got invalid dimensions for input: images''),
      ready\<lparr>engineLog :=
        [CreateSession,
         NewTensor (replicate 12 (Fin 0)) [1, 3, 2, 2],
         Run example_session \<lparr>tdata = replicate 12 (Fin 0), tdims = [1, 3, 2, 2]\<rparr>]\<rparr>)"
  by (simp add: handleProcessImage_def example_engine_def ready_def example_request_def
      log_call_def Let_def)

text \<open>
  C5, as stated, fails: with no session loaded, a request whose data length is not the
  product of its dimensions is answered with the error of the session check.
\<close>

theorem shape_before_session_counterexample:
  "int (length (tensorData mismatched_request)) \<noteq> prod_list (dimensions mismatched_request) \<and>
   handleProcessImage example_engine initial mismatched_request = (Inl not_initialized, initial)"
  by (simp add: handleProcessImage_def mismatched_request_def initial_def)

text \<open>
  C5, amended. \<open>handleProcessImage\<close> compares no lengths itself. With no session loaded
  every request fails with the error of the session check and no engine call. With a
  session loaded its first engine call is the tensor constructor, on the data and the
  dimensions of the request as they are; if the constructor throws, that error is the
  outcome and \<open>session.run\<close> is not called.
\<close>

theorem no_shape_check:
  "(ortSession st = None \<longrightarrow> handleProcessImage eng st request = (Inl not_initialized, st)) \<and>
   (\<forall>sess. ortSession st = Some sess \<longrightarrow>
      (\<exists>rest. engineLog (snd (handleProcessImage eng st request)) =
         engineLog st @ NewTensor (tensorData request) (dimensions request) # rest) \<and>
      (\<forall>e. newTensor eng (tensorData request) (dimensions request) = Inl e \<longrightarrow>
         handleProcessImage eng st request =
           (Inl e, log_call (NewTensor (tensorData request) (dimensions request)) st)))"
  by (auto simp: handleProcessImage_def log_call_def Let_def split: option.splits sum.splits)

theorem no_shape_check_witness:
  "handleProcessImage example_engine failed mismatched_request = (Inl not_initialized, failed) \<and>
   handleProcessImage example_engine ready mismatched_request =
     (Inl (Error ''Tensor size does not match data length''),
      log_call (NewTensor [Fin 0] [1, 3, 320, 320]) ready)"
  using no_shape_check [of failed example_engine mismatched_request]
    no_shape_check [of ready example_engine mismatched_request]
  by (simp add: failed_def ready_def example_engine_def mismatched_request_def)

end
